theory Spec2Isabelle
  imports Main "HOL-Library.AList"
begin

section \<open>The workflow orchestrator of \<^verbatim>\<open>examples-medium/multi_tool_orchestrator.py\<close>\<close>

subsection \<open>Values, dictionaries, errors\<close>

text \<open>
  Step parameters, context entries and tool results are JSON-like Python objects. The
  runner inspects one thing only: whether a value is a \<open>str\<close>. A float is kept as a
  mantissa and an exponent; it is never computed with.
\<close>

datatype val =
    VNone
  | VBool bool
  | VInt int
  | VFloat int int
  | VStr string
  | VList "val list"
  | VDict "(string \<times> val) list"

text \<open>
  A Python \<open>dict\<close> is an association list in insertion order. \<open>k in d\<close> is
  \<open>map_of d k \<noteq> None\<close>, \<open>d[k]\<close> under that guard is the value found, and the
  assignment \<open>d[k] = v\<close> is \<open>setitem\<close>: it overwrites the entry of an existing key in
  place and appends a new key at the end.
\<close>

type_synonym dict = "(string \<times> val) list"

definition setitem :: "('k \<times> 'v) list \<Rightarrow> 'k \<Rightarrow> 'v \<Rightarrow> ('k \<times> 'v) list" where
  "setitem d k v = AList.update k v d"

text \<open>
  The exceptions that can leave \<open>execute_workflow\<close>: the \<open>ValueError\<close> it raises
  itself, the \<open>KeyError\<close> of \<open>step["params"]\<close> or \<open>step["tool"]\<close> on a step stored
  without that key, and whatever \<open>execute_tool\<close> raises.
\<close>

datatype error = ValueError string | KeyError string | ToolFailure string

subsection \<open>String tests of the placeholder check\<close>

definition startswith :: "string \<Rightarrow> string \<Rightarrow> bool" where
  "startswith s p = (take (length p) s = p)"

definition endswith :: "string \<Rightarrow> string \<Rightarrow> bool" where
  "endswith s x = (length x \<le> length s \<and> drop (length s - length x) s = x)"

text \<open>The slice \<open>value[1:-1]\<close>: everything but the first and the last character.\<close>

definition slice_inner :: "string \<Rightarrow> string" where
  "slice_inner s = take (length s - 2) (drop 1 s)"

subsection \<open>Steps, the registry and the state\<close>

text \<open>
  A step is a dict read at the keys \<open>"tool"\<close> and \<open>"params"\<close>. A custom workflow is
  stored as it arrives, so either key can be missing: \<open>None\<close> is the absent key.
\<close>

record step =
  tool :: "string option"
  params :: "dict option"

text \<open>
  One invocation of \<open>execute_tool\<close>, as the log keeps it: the tool name, the parameter
  dict it received and what it returned or raised.
\<close>

type_synonym call = "string \<times> dict \<times> (error + val)"

text \<open>
  The state threaded through a run: \<open>self.workflows\<close>, the world outside the process
  that \<open>execute_tool\<close> reaches (it is the only thing the callback reads and writes), and
  the log of the invocations of \<open>execute_tool\<close>, oldest first.
\<close>

record 'w state =
  workflows :: "(string \<times> step list) list"
  world :: 'w
  calls :: "call list"

type_synonym 'w callback = "string \<Rightarrow> dict \<Rightarrow> 'w \<Rightarrow> (error + val) \<times> 'w"

text \<open>The built-in workflows of \<open>ToolOrchestrator.__init__\<close>.\<close>

definition init_workflows :: "(string \<times> step list) list" where
  "init_workflows =
    [(''morning_briefing'',
       [\<lparr>tool = Some ''get_calendar_events'', params = Some [(''days'', VInt 1)]\<rparr>,
        \<lparr>tool = Some ''check_github_notifications'', params = Some []\<rparr>,
        \<lparr>tool = Some ''get_weather'', params = Some []\<rparr>,
        \<lparr>tool = Some ''check_ci_status'',
          params = Some [(''repos'', VList [VStr ''main-project''])]\<rparr>]),
     (''deploy_checklist'',
       [\<lparr>tool = Some ''run_tests'', params = Some [(''suite'', VStr ''all'')]\<rparr>,
        \<lparr>tool = Some ''check_code_coverage'', params = Some [(''threshold'', VInt 80)]\<rparr>,
        \<lparr>tool = Some ''lint_code'', params = Some []\<rparr>,
        \<lparr>tool = Some ''check_dependencies'', params = Some [(''security'', VBool True)]\<rparr>,
        \<lparr>tool = Some ''generate_changelog'', params = Some []\<rparr>]),
     (''research_assistant'',
       [\<lparr>tool = Some ''search_arxiv'',
          params = Some [(''query'', VStr ''{query}''), (''limit'', VInt 5)]\<rparr>,
        \<lparr>tool = Some ''summarize_papers'',
          params = Some [(''papers'', VStr ''{arxiv_results}'')]\<rparr>,
        \<lparr>tool = Some ''find_implementations'',
          params = Some [(''papers'', VStr ''{arxiv_results}'')]\<rparr>,
        \<lparr>tool = Some ''create_reading_list'',
          params = Some [(''summaries'', VStr ''{summaries}'')]\<rparr>])]"

definition init_state :: "'w \<Rightarrow> 'w state" where
  "init_state w = \<lparr>workflows = init_workflows, world = w, calls = []\<rparr>"

subsection \<open>Parameter resolution (the inner loop of \<open>execute_workflow\<close>)\<close>

text \<open>
  The body of \<open>for key, value in step["params"].items()\<close>: \<open>acc\<close> is the dict
  \<open>params\<close> being built.
\<close>

fun resolve_param :: "dict \<Rightarrow> dict \<Rightarrow> dict \<Rightarrow> string \<times> val \<Rightarrow> dict" where
  "resolve_param context results acc (key, VStr s) =
     (if startswith s ''{'' \<and> endswith s ''}'' then
        (let param_name = slice_inner s in
         case map_of context param_name of
           Some v \<Rightarrow> setitem acc key v
         | None \<Rightarrow>
             (case map_of results param_name of
                Some v \<Rightarrow> setitem acc key v
              | None \<Rightarrow> acc))
      else setitem acc key (VStr s))"
| "resolve_param context results acc (key, value) = setitem acc key value"

definition resolve_params :: "dict \<Rightarrow> dict \<Rightarrow> dict \<Rightarrow> dict" where
  "resolve_params context results items = foldl (resolve_param context results) [] items"

subsection \<open>Running a workflow\<close>

text \<open>\<open>await self.execute_tool(tool_name, ps)\<close>, logged.\<close>

definition invoke :: "'w callback \<Rightarrow> string \<Rightarrow> dict \<Rightarrow> 'w state \<Rightarrow> (error + val) \<times> 'w state" where
  "invoke execute_tool tool_name ps s =
     (case execute_tool tool_name ps (world s) of
        (r, w') \<Rightarrow> (r, s\<lparr>world := w', calls := calls s @ [(tool_name, ps, r)]\<rparr>))"

text \<open>
  The body of \<open>for step in workflow\<close>: resolve the parameters, call the tool, store
  its result under the tool's name. \<open>step["params"]\<close> is read first, \<open>step["tool"]\<close>
  when the call is made.
\<close>

definition run_step ::
  "'w callback \<Rightarrow> dict \<Rightarrow> step \<Rightarrow> dict \<Rightarrow> 'w state \<Rightarrow> (error + dict) \<times> 'w state" where
  "run_step execute_tool context stp results s =
     (case params stp of
        None \<Rightarrow> (Inl (KeyError ''params''), s)
      | Some items \<Rightarrow>
          (let ps = resolve_params context results items in
           case tool stp of
             None \<Rightarrow> (Inl (KeyError ''tool''), s)
           | Some t \<Rightarrow>
               (case invoke execute_tool t ps s of
                  (Inl e, s') \<Rightarrow> (Inl e, s')
                | (Inr result, s') \<Rightarrow> (Inr (setitem results t result), s'))))"

text \<open>
  The loop over the steps, from the current \<open>results\<close>. The context is the caller's
  dict object: the loop hands it on from step to step and returns it with the outcome.
\<close>

fun run_steps ::
  "'w callback \<Rightarrow> dict \<Rightarrow> step list \<Rightarrow> dict \<Rightarrow> 'w state \<Rightarrow> (error + dict) \<times> dict \<times> 'w state" where
  "run_steps execute_tool context [] results s = (Inr results, context, s)"
| "run_steps execute_tool context (stp # rest) results s =
     (case run_step execute_tool context stp results s of
        (Inl e, s') \<Rightarrow> (Inl e, context, s')
      | (Inr results', s') \<Rightarrow> run_steps execute_tool context rest results' s')"

definition execute_workflow ::
  "'w callback \<Rightarrow> string \<Rightarrow> dict \<Rightarrow> 'w state \<Rightarrow> (error + dict) \<times> dict \<times> 'w state" where
  "execute_workflow execute_tool workflow_name context s =
     (case map_of (workflows s) workflow_name of
        None \<Rightarrow> (Inl (ValueError (''Unknown workflow: '' @ workflow_name)), context, s)
      | Some workflow \<Rightarrow> run_steps execute_tool context workflow [] s)"

subsection \<open>The tool handler\<close>

text \<open>
  \<open>handle_call_tool(name, arguments)\<close> on arguments that pass the input schemas. The
  three text replies are kept as the data they are formatted from.
\<close>

datatype request =
    ExecuteWorkflow string "dict option"
  | CreateCustomWorkflow string "step list"
  | OtherTool string

datatype response =
    WorkflowExecuted string dict
  | WorkflowCreated string
  | UnknownTool string

fun handle_call_tool ::
  "'w callback \<Rightarrow> request \<Rightarrow> 'w state \<Rightarrow> (error + response) \<times> 'w state" where
  "handle_call_tool execute_tool (ExecuteWorkflow workflow ctx) s =
     (case execute_workflow execute_tool workflow (case ctx of None \<Rightarrow> [] | Some c \<Rightarrow> c) s of
        (Inl e, _, s') \<Rightarrow> (Inl e, s')
      | (Inr result, _, s') \<Rightarrow> (Inr (WorkflowExecuted workflow result), s'))"
| "handle_call_tool execute_tool (CreateCustomWorkflow name steps) s =
     (Inr (WorkflowCreated name), s\<lparr>workflows := setitem (workflows s) name steps\<rparr>)"
| "handle_call_tool execute_tool (OtherTool name) s = (Inr (UnknownTool name), s)"

subsection \<open>Reading the log\<close>

text \<open>The invocations a run added to the log of the state it started from.\<close>

definition new_calls :: "'w state \<Rightarrow> 'w state \<Rightarrow> call list" where
  "new_calls s s' = drop (length (calls s)) (calls s')"

text \<open>
  The result set that a sequence of returned invocations builds, in the spec's words:
  each returned value is stored under its tool's name, later ones over earlier ones.
\<close>

fun record_call :: "dict \<Rightarrow> call \<Rightarrow> dict" where
  "record_call results (t, ps, Inr v) = setitem results t v"
| "record_call results (t, ps, Inl e) = results"

definition accumulated :: "dict \<Rightarrow> call list \<Rightarrow> dict" where
  "accumulated results cs = foldl record_call results cs"

subsection \<open>What the loops compute\<close>

text \<open>
  What one parameter value resolves to: the value stored under the parameter's key, or
  \<open>None\<close> when the inner loop stores nothing for it.
\<close>

definition resolved :: "dict \<Rightarrow> dict \<Rightarrow> val \<Rightarrow> val option" where
  "resolved context results value =
     (case value of
        VStr s \<Rightarrow>
          (if startswith s ''{'' \<and> endswith s ''}'' then
             (case map_of context (slice_inner s) of
                Some v \<Rightarrow> Some v
              | None \<Rightarrow> map_of results (slice_inner s))
           else Some value)
      | _ \<Rightarrow> Some value)"

text \<open>
  The shape of the log that a run over \<open>wflow\<close> from \<open>res\<close> leaves behind, with
  its outcome: the invocations follow the steps in order, only the last one can have
  raised, a raised error is the outcome, and a returned result set is the one the
  invocations build.
\<close>

definition trace_ok :: "step list \<Rightarrow> dict \<Rightarrow> call list \<Rightarrow> (error + dict) \<Rightarrow> bool" where
  "trace_ok wflow res new out \<longleftrightarrow>
     length new \<le> length wflow \<and>
     map (Some \<circ> fst) new = take (length new) (map tool wflow) \<and>
     (\<forall>i e. i < length new \<and> snd (snd (new ! i)) = Inl e \<longrightarrow> Suc i = length new \<and> out = Inl e) \<and>
     (\<forall>r. out = Inr r \<longrightarrow> length new = length wflow \<and> r = accumulated res new)"

subsection \<open>Tool callbacks used in the examples\<close>

text \<open>The world is a counter of invocations; the tool returns the count so far.\<close>

definition counting_tool :: "nat callback" where
  "counting_tool t ps w = (Inr (VInt (int w)), Suc w)"

text \<open>A tool layer whose weather request fails; every other tool returns its name.\<close>

definition weather_down :: "nat callback" where
  "weather_down t ps w =
     (if t = ''get_weather'' then (Inl (ToolFailure ''weather API unreachable''), Suc w)
      else (Inr (VStr t), Suc w))"

text \<open>A tool that returns the list of the parameter values it received.\<close>

definition echo_tool :: "nat callback" where
  "echo_tool t ps w = (Inr (VList (map snd ps)), Suc w)"

text \<open>A custom workflow that lints, tests and lints again.\<close>

definition lint_twice :: "step list" where
  "lint_twice =
     [\<lparr>tool = Some ''lint_code'', params = Some []\<rparr>,
      \<lparr>tool = Some ''run_tests'', params = Some [(''suite'', VStr ''all'')]\<rparr>,
      \<lparr>tool = Some ''lint_code'', params = Some [(''fix'', VBool True)]\<rparr>]"

definition lint_twice_state :: "nat state" where
  "lint_twice_state = \<lparr>workflows = [(''lint_twice'', lint_twice)], world = 0, calls = []\<rparr>"

text \<open>
  A step whose parameters cover every branch of the resolution, with a context and a
  result set to resolve it against.
\<close>

definition summarize_step :: step where
  "summarize_step =
     \<lparr>tool = Some ''summarize_papers'',
      params = Some [(''topic'', VStr ''{query}''), (''papers'', VStr ''{search_arxiv}''),
                     (''style'', VStr ''{style}''), (''limit'', VInt 5),
                     (''note'', VStr ''{draft''), (''blank'', VStr ''{}'')]\<rparr>"

definition summarize_context :: dict where
  "summarize_context = [(''query'', VStr ''{topic}''), (''topic'', VStr ''rust'')]"

definition summarize_results :: dict where
  "summarize_results =
     [(''query'', VStr ''shadowed''), (''search_arxiv'', VList [VStr ''paper-1''])]"

section \<open>Properties\<close>

subsection \<open>Dictionaries\<close>


lemma map_of_setitem: "map_of (setitem d k v) = (map_of d)(k \<mapsto> v)"
  by (simp add: setitem_def update_conv')

lemma keys_setitem: "fst ` set (setitem d k v) = insert k (fst ` set d)"
  by (simp add: setitem_def dom_update)

lemma distinct_setitem: "distinct (map fst d) \<Longrightarrow> distinct (map fst (setitem d k v))"
  by (simp add: setitem_def distinct_update)

lemma resolve_param_eq:
  "resolve_param context results acc (key, value) =
     (case resolved context results value of Some v \<Rightarrow> setitem acc key v | None \<Rightarrow> acc)"
  by (cases "value") (simp_all add: resolved_def split: option.splits)

lemma map_of_resolve_param:
  "map_of (resolve_param context results acc (key, value)) k =
     (if k = key then (case resolved context results value of Some v \<Rightarrow> Some v | None \<Rightarrow> map_of acc key)
      else map_of acc k)"
  by (simp add: resolve_param_eq map_of_setitem split: option.splits)

lemma foldl_resolve_other:
  "k \<notin> fst ` set items \<Longrightarrow>
   map_of (foldl (resolve_param context results) acc items) k = map_of acc k"
proof (induction items arbitrary: acc)
  case Nil
  then show ?case by simp
next
  case (Cons kv items)
  obtain key x where kv: "kv = (key, x)" by (cases kv)
  from Cons.prems kv have "k \<noteq> key" "k \<notin> fst ` set items" by auto
  then show ?case using Cons.IH [of "resolve_param context results acc kv"]
    by (simp add: kv map_of_resolve_param)
qed

lemma foldl_resolve_key:
  "distinct (map fst items) \<Longrightarrow> (key, value) \<in> set items \<Longrightarrow> map_of acc key = None \<Longrightarrow>
   map_of (foldl (resolve_param context results) acc items) key = resolved context results value"
proof (induction items arbitrary: acc)
  case Nil
  then show ?case by simp
next
  case (Cons kv items)
  obtain k v where kv: "kv = (k, v)" by (cases kv)
  show ?case
  proof (cases "k = key")
    case True
    with Cons.prems kv have notin: "key \<notin> fst ` set items" and v: "v = value"
      by (auto simp: image_iff)
    have "map_of (foldl (resolve_param context results) acc (kv # items)) key =
          map_of (resolve_param context results acc kv) key"
      using foldl_resolve_other [OF notin] by simp
    also have "\<dots> = resolved context results value"
      using Cons.prems(3) by (simp add: kv True v map_of_resolve_param split: option.splits)
    finally show ?thesis .
  next
    case False
    with Cons.prems kv have "(key, value) \<in> set items" "distinct (map fst items)" by auto
    moreover have "map_of (resolve_param context results acc kv) key = None"
      using False Cons.prems(3) by (simp add: kv map_of_resolve_param)
    ultimately show ?thesis using Cons.IH by simp
  qed
qed

lemma map_of_resolve_params:
  "distinct (map fst items) \<Longrightarrow> (key, value) \<in> set items \<Longrightarrow>
   map_of (resolve_params context results items) key = resolved context results value"
  by (simp add: resolve_params_def foldl_resolve_key)


lemma invoke_eq:
  "invoke ex t ps s = (r, s') \<Longrightarrow>
   workflows s' = workflows s \<and> calls s' = calls s @ [(t, ps, r)] \<and> ex t ps (world s) = (r, world s')"
  by (auto simp: invoke_def split: prod.splits)

lemma run_step_cases [consumes 1, case_names no_params no_tool failed returned]:
  assumes "run_step ex ctx stp res s = (out, s')"
  obtains
    "params stp = None" "out = Inl (KeyError ''params'')" "s' = s"
  | items where "params stp = Some items" "tool stp = None"
      "out = Inl (KeyError ''tool'')" "s' = s"
  | items t e where "params stp = Some items" "tool stp = Some t"
      "workflows s' = workflows s"
      "calls s' = calls s @ [(t, resolve_params ctx res items, Inl e)]"
      "ex t (resolve_params ctx res items) (world s) = (Inl e, world s')"
      "out = Inl e"
  | items t v where "params stp = Some items" "tool stp = Some t"
      "workflows s' = workflows s"
      "calls s' = calls s @ [(t, resolve_params ctx res items, Inr v)]"
      "ex t (resolve_params ctx res items) (world s) = (Inr v, world s')"
      "out = Inr (setitem res t v)"
proof (cases "params stp")
  case None
  with assms that(1) show ?thesis by (simp add: run_step_def)
next
  case (Some items)
  note items = this
  show ?thesis
  proof (cases "tool stp")
    case None
    with assms items that(2) show ?thesis by (simp add: run_step_def)
  next
    case (Some t)
    obtain r s1 where inv: "invoke ex t (resolve_params ctx res items) s = (r, s1)"
      by (cases "invoke ex t (resolve_params ctx res items) s")
    note eq = invoke_eq [OF inv]
    show ?thesis
    proof (cases r)
      case (Inl e)
      with assms items Some inv have "s' = s1" "out = Inl e"
        by (auto simp: run_step_def)
      with eq Inl items Some that(3) show ?thesis by simp
    next
      case (Inr v)
      with assms items Some inv have "s' = s1" "out = Inr (setitem res t v)"
        by (auto simp: run_step_def)
      with eq Inr items Some that(4) show ?thesis by simp
    qed
  qed
qed

lemma trace_ok_Nil_err: "trace_ok wflow res [] (Inl e)"
  by (simp add: trace_ok_def)

lemma trace_ok_fail: "tool stp = Some t \<Longrightarrow> trace_ok (stp # rest) res [(t, ps, Inl e)] (Inl e)"
  by (simp add: trace_ok_def)

lemma trace_ok_Cons:
  assumes "tool stp = Some t" "trace_ok rest (setitem res t v) new out"
  shows "trace_ok (stp # rest) res ((t, ps, Inr v) # new) out"
proof -
  let ?new = "(t, ps, Inr v) # new"
  from assms(2) have len: "length new \<le> length rest"
    and tools: "map (Some \<circ> fst) new = take (length new) (map tool rest)"
    and fail: "\<And>i e. i < length new \<Longrightarrow> snd (snd (new ! i)) = Inl e \<Longrightarrow>
                 Suc i = length new \<and> out = Inl e"
    and ok: "\<And>r. out = Inr r \<Longrightarrow> length new = length rest \<and> r = accumulated (setitem res t v) new"
    unfolding trace_ok_def by blast+
  have 1: "length ?new \<le> length (stp # rest)" using len by simp
  have 2: "map (Some \<circ> fst) ?new = take (length ?new) (map tool (stp # rest))"
    using tools assms(1) by simp
  have 3: "\<forall>i e. i < length ?new \<and> snd (snd (?new ! i)) = Inl e \<longrightarrow>
             Suc i = length ?new \<and> out = Inl e"
  proof (intro allI impI, elim conjE)
    fix i e assume i: "i < length ?new" and f: "snd (snd (?new ! i)) = Inl e"
    from f obtain j where j: "i = Suc j" by (cases i) auto
    with i f have "j < length new" "snd (snd (new ! j)) = Inl e" by auto
    then have "Suc j = length new \<and> out = Inl e" by (rule fail)
    with j show "Suc i = length ?new \<and> out = Inl e" by simp
  qed
  have 4: "\<forall>r. out = Inr r \<longrightarrow> length ?new = length (stp # rest) \<and> r = accumulated res ?new"
    using ok by (simp add: accumulated_def)
  from 1 2 3 4 show ?thesis unfolding trace_ok_def by blast
qed

lemma run_steps_trace:
  "run_steps ex ctx wflow res s = (out, ctx', s') \<Longrightarrow>
   ctx' = ctx \<and> workflows s' = workflows s \<and>
   (\<exists>new. calls s' = calls s @ new \<and> trace_ok wflow res new out)"
proof (induction wflow arbitrary: res s)
  case Nil
  then show ?case by (auto simp: trace_ok_def accumulated_def)
next
  case (Cons stp rest)
  obtain o1 s1 where st: "run_step ex ctx stp res s = (o1, s1)"
    by (cases "run_step ex ctx stp res s")
  from st show ?case
  proof (cases rule: run_step_cases)
    case no_params
    with Cons.prems st show ?thesis using trace_ok_Nil_err by auto
  next
    case (no_tool items)
    with Cons.prems st show ?thesis using trace_ok_Nil_err by auto
  next
    case (failed items t e)
    with Cons.prems st have "out = Inl e" "ctx' = ctx" "s' = s1" by auto
    with failed show ?thesis using trace_ok_fail by auto
  next
    case (returned items t v)
    with Cons.prems st
    have rest: "run_steps ex ctx rest (setitem res t v) s1 = (out, ctx', s')" by simp
    from Cons.IH [OF rest] obtain new where
      new: "ctx' = ctx" "workflows s' = workflows s1" "calls s' = calls s1 @ new"
        "trace_ok rest (setitem res t v) new out" by blast
    have "trace_ok (stp # rest) res ((t, resolve_params ctx res items, Inr v) # new) out"
      using trace_ok_Cons returned(2) new(4) by simp
    with new returned show ?thesis by auto
  qed
qed


lemma new_calls_append: "calls s' = calls s @ new \<Longrightarrow> new_calls s s' = new"
  by (simp add: new_calls_def)

lemma execute_workflow_trace:
  assumes "map_of (workflows s) name = Some wflow"
      and "execute_workflow ex name ctx s = (out, ctx', s')"
  shows "calls s' = calls s @ new_calls s s' \<and> trace_ok wflow [] (new_calls s s') out"
proof -
  from assms have "run_steps ex ctx wflow [] s = (out, ctx', s')"
    by (simp add: execute_workflow_def)
  from run_steps_trace [OF this] obtain new where
    new: "calls s' = calls s @ new" "trace_ok wflow [] new out" by blast
  then show ?thesis by (simp add: new_calls_append)
qed

lemma run_step_passes:
  assumes "params stp = Some items" "tool stp = Some t"
      and "run_step ex ctx stp results s = (out, s')"
  shows "\<exists>r. new_calls s s' = [(t, resolve_params ctx results items, r)] \<and>
             out = (case r of Inl e \<Rightarrow> Inl e | Inr v \<Rightarrow> Inr (setitem results t v))"
  using assms(3)
proof (cases rule: run_step_cases)
  case no_params
  with assms show ?thesis by simp
next
  case (no_tool items')
  with assms show ?thesis by simp
next
  case (failed items' t' e)
  with assms show ?thesis by (simp add: new_calls_append)
next
  case (returned items' t' v)
  with assms show ?thesis by (simp add: new_calls_append)
qed

lemma run_step_delivers:
  assumes "params stp = Some items" "tool stp = Some t"
      and "run_step ex ctx stp results s = (out, s')"
  shows "\<exists>r. new_calls s s' = [(t, resolve_params ctx results items, r)] \<and>
             ex t (resolve_params ctx results items) (world s) = (r, world s') \<and>
             out = (case r of Inl e \<Rightarrow> Inl e | Inr v \<Rightarrow> Inr (setitem results t v))"
  using assms(3)
proof (cases rule: run_step_cases)
  case no_params
  with assms show ?thesis by simp
next
  case (no_tool items')
  with assms show ?thesis by simp
next
  case (failed items' t' e)
  with assms show ?thesis by (simp add: new_calls_append)
next
  case (returned items' t' v)
  with assms show ?thesis by (simp add: new_calls_append)
qed

lemma map_of_None_keys: "map_of d k = None \<longleftrightarrow> k \<notin> fst ` set d"
  by (simp add: map_of_eq_None_iff)

lemma accumulated_other:
  "A \<notin> fst ` set cs \<Longrightarrow> map_of (accumulated res cs) A = map_of res A"
proof (induction cs arbitrary: res)
  case Nil
  then show ?case by (simp add: accumulated_def)
next
  case (Cons c cs)
  obtain t ps r where c: "c = (t, ps, r)" by (cases c)
  from Cons.prems c have "t \<noteq> A" "A \<notin> fst ` set cs" by auto
  then have "map_of (accumulated (record_call res c) cs) A = map_of res A"
    using Cons.IH [of "record_call res c"] by (cases r) (simp_all add: c map_of_setitem)
  then show ?case by (simp add: accumulated_def)
qed

lemma accumulated_last:
  "j < length cs \<Longrightarrow> cs ! j = (A, ps, Inr v) \<Longrightarrow>
   (\<And>k. j < k \<Longrightarrow> k < length cs \<Longrightarrow> fst (cs ! k) \<noteq> A) \<Longrightarrow>
   map_of (accumulated res cs) A = Some v"
proof (induction cs arbitrary: res j)
  case Nil
  then show ?case by simp
next
  case (Cons c cs)
  show ?case
  proof (cases j)
    case 0
    with Cons.prems(2) have c: "c = (A, ps, Inr v)" by simp
    have "A \<notin> fst ` set cs"
    proof
      assume "A \<in> fst ` set cs"
      then obtain k where "k < length cs" "fst (cs ! k) = A"
        by (auto simp: in_set_conv_nth)
      with Cons.prems(3) [of "Suc k"] 0 show False by simp
    qed
    then have "map_of (accumulated (setitem res A v) cs) A = Some v"
      by (simp add: accumulated_other map_of_setitem)
    then show ?thesis by (simp add: accumulated_def c)
  next
    case (Suc j')
    with Cons.prems have "j' < length cs" "cs ! j' = (A, ps, Inr v)" by auto
    moreover have "\<And>k. j' < k \<Longrightarrow> k < length cs \<Longrightarrow> fst (cs ! k) \<noteq> A"
      using Cons.prems(3) [of "Suc k" for k] Suc by simp
    ultimately have "map_of (accumulated (record_call res c) cs) A = Some v"
      by (rule Cons.IH)
    then show ?thesis by (simp add: accumulated_def)
  qed
qed

lemma distinct_record_call:
  "distinct (map fst res) \<Longrightarrow> distinct (map fst (record_call res c))"
proof -
  obtain t ps r where "c = (t, ps, r)" by (cases c)
  then show "distinct (map fst res) \<Longrightarrow> distinct (map fst (record_call res c))"
    by (cases r) (simp_all add: distinct_setitem)
qed

lemma distinct_accumulated:
  "distinct (map fst res) \<Longrightarrow> distinct (map fst (accumulated res cs))"
  unfolding accumulated_def
  by (induction cs arbitrary: res) (simp_all add: distinct_record_call)

lemma single_entry:
  "distinct (map fst d) \<Longrightarrow> map_of d k = Some v \<Longrightarrow> filter (\<lambda>p. fst p = k) d = [(k, v)]"
proof (induction d)
  case Nil
  then show ?case by simp
next
  case (Cons p d)
  obtain k' v' where p: "p = (k', v')" by (cases p)
  show ?case
  proof (cases "k' = k")
    case True
    with Cons.prems p have "v' = v" "k \<notin> fst ` set d" by auto
    then have "filter (\<lambda>p. fst p = k) d = []" by (auto simp: filter_empty_conv)
    with True p \<open>v' = v\<close> show ?thesis by simp
  next
    case False
    with Cons p show ?thesis by simp
  qed
qed

text \<open>
  Every invocation of a run, failed or not, is the invocation of its step: it receives the
  step's parameters resolved against the context and the results recorded before it.
\<close>

lemma run_steps_passes:
  "run_steps ex ctx wflow res s = (out, ctx', s') \<Longrightarrow> calls s' = calls s @ new \<Longrightarrow>
   i < length new \<Longrightarrow>
   \<exists>items. params (wflow ! i) = Some items \<and>
     fst (snd (new ! i)) = resolve_params ctx (accumulated res (take i new)) items"
proof (induction wflow arbitrary: res s new i)
  case Nil
  then show ?case by simp
next
  case (Cons stp rest)
  obtain o1 s1 where st: "run_step ex ctx stp res s = (o1, s1)"
    by (cases "run_step ex ctx stp res s")
  from st show ?case
  proof (cases rule: run_step_cases)
    case no_params
    with Cons.prems st show ?thesis by auto
  next
    case (no_tool items)
    with Cons.prems st show ?thesis by auto
  next
    case (failed items t e)
    with Cons.prems st have "s' = s1" by auto
    with failed Cons.prems have "new = [(t, resolve_params ctx res items, Inl e)]" by simp
    with Cons.prems(3) failed(1) show ?thesis by (simp add: accumulated_def)
  next
    case (returned items t v)
    let ?c = "(t, resolve_params ctx res items, Inr v)"
    from returned Cons.prems st
    have rest: "run_steps ex ctx rest (setitem res t v) s1 = (out, ctx', s')" by simp
    from run_steps_trace [OF rest] obtain new' where new': "calls s' = calls s1 @ new'"
      by blast
    with returned Cons.prems(2) have new: "new = ?c # new'" by simp
    show ?thesis
    proof (cases i)
      case 0
      with new returned(1) show ?thesis by (simp add: accumulated_def)
    next
      case (Suc j)
      with Cons.prems(3) new have j: "j < length new'" by simp
      from Cons.IH [OF rest new' j] obtain items' where
        "params (rest ! j) = Some items'"
        "fst (snd (new' ! j)) = resolve_params ctx (accumulated (setitem res t v) (take j new')) items'"
        by blast
      with Suc new show ?thesis by (simp add: accumulated_def)
    qed
  qed
qed

subsection \<open>Runs\<close>

lemmas run_simps = execute_workflow_def run_step_def invoke_def resolve_params_def
  setitem_def new_calls_def accumulated_def init_state_def init_workflows_def
  startswith_def endswith_def slice_inner_def counting_tool_def weather_down_def
  echo_tool_def

text \<open>
  C1. A successful run of a registered workflow of \<open>N\<close> steps invokes the tool
  callback exactly \<open>N\<close> times, once per step and in the order of the steps (the log
  gains one entry per step, carrying that step's tool name and that step's parameters,
  resolved against the results recorded so far), and returns the result set accumulated
  from the values the invocations returned.
\<close>

theorem run_invokes_each_step_in_order:
  assumes "map_of (workflows s) name = Some wflow"
      and "execute_workflow ex name ctx s = (Inr res, ctx', s')"
  shows "calls s' = calls s @ new_calls s s' \<and>
         length (new_calls s s') = length wflow \<and>
         map (Some \<circ> fst) (new_calls s s') = map tool wflow \<and>
         (\<forall>i<length wflow. \<exists>items. params (wflow ! i) = Some items \<and>
            fst (snd (new_calls s s' ! i)) =
              resolve_params ctx (accumulated [] (take i (new_calls s s'))) items) \<and>
         res = accumulated [] (new_calls s s')"
proof -
  from assms have run: "run_steps ex ctx wflow [] s = (Inr res, ctx', s')"
    by (simp add: execute_workflow_def)
  from execute_workflow_trace [OF assms]
  have log: "calls s' = calls s @ new_calls s s'"
    and tr: "trace_ok wflow [] (new_calls s s') (Inr res)" by simp_all
  from tr have len: "length (new_calls s s') = length wflow"
    and acc: "res = accumulated [] (new_calls s s')"
    and tools: "map (Some \<circ> fst) (new_calls s s') = take (length (new_calls s s')) (map tool wflow)"
    unfolding trace_ok_def by blast+
  from tools len have names: "map (Some \<circ> fst) (new_calls s s') = map tool wflow" by simp
  have passed: "\<forall>i<length wflow. \<exists>items. params (wflow ! i) = Some items \<and>
      fst (snd (new_calls s s' ! i)) =
        resolve_params ctx (accumulated [] (take i (new_calls s s'))) items"
    using run_steps_passes [OF run log] len by simp
  from log len names passed acc show ?thesis by blast
qed

theorem run_invokes_each_step_in_order_witness:
  "map_of (workflows (init_state (0::nat))) ''deploy_checklist'' =
     Some [\<lparr>tool = Some ''run_tests'', params = Some [(''suite'', VStr ''all'')]\<rparr>,
           \<lparr>tool = Some ''check_code_coverage'', params = Some [(''threshold'', VInt 80)]\<rparr>,
           \<lparr>tool = Some ''lint_code'', params = Some []\<rparr>,
           \<lparr>tool = Some ''check_dependencies'', params = Some [(''security'', VBool True)]\<rparr>,
           \<lparr>tool = Some ''generate_changelog'', params = Some []\<rparr>] \<and>
   fst (execute_workflow counting_tool ''deploy_checklist'' [] (init_state 0)) =
     Inr [(''run_tests'', VInt 0), (''check_code_coverage'', VInt 1), (''lint_code'', VInt 2),
          (''check_dependencies'', VInt 3), (''generate_changelog'', VInt 4)] \<and>
   length (new_calls (init_state 0)
     (snd (snd (execute_workflow counting_tool ''deploy_checklist'' [] (init_state 0))))) = 5 \<and>
   map fst (new_calls (init_state 0)
     (snd (snd (execute_workflow counting_tool ''deploy_checklist'' [] (init_state 0))))) =
     [''run_tests'', ''check_code_coverage'', ''lint_code'', ''check_dependencies'',
      ''generate_changelog'']"
proof -
  let ?s = "init_state (0::nat)"
  let ?r = "execute_workflow counting_tool ''deploy_checklist'' [] ?s"
  have h1: "map_of (workflows ?s) ''deploy_checklist'' =
     Some [\<lparr>tool = Some ''run_tests'', params = Some [(''suite'', VStr ''all'')]\<rparr>,
           \<lparr>tool = Some ''check_code_coverage'', params = Some [(''threshold'', VInt 80)]\<rparr>,
           \<lparr>tool = Some ''lint_code'', params = Some []\<rparr>,
           \<lparr>tool = Some ''check_dependencies'', params = Some [(''security'', VBool True)]\<rparr>,
           \<lparr>tool = Some ''generate_changelog'', params = Some []\<rparr>]"
    by (simp add: init_state_def init_workflows_def)
  have h2f: "fst ?r = Inr [(''run_tests'', VInt 0), (''check_code_coverage'', VInt 1),
          (''lint_code'', VInt 2), (''check_dependencies'', VInt 3),
          (''generate_changelog'', VInt 4)]"
    by (simp add: run_simps)
  then have h2: "?r = (Inr [(''run_tests'', VInt 0), (''check_code_coverage'', VInt 1),
          (''lint_code'', VInt 2), (''check_dependencies'', VInt 3),
          (''generate_changelog'', VInt 4)], fst (snd ?r), snd (snd ?r))"
    by (simp add: prod_eq_iff)
  note th = run_invokes_each_step_in_order [OF h1 h2]
  from th have c1: "length (new_calls ?s (snd (snd ?r))) = 5" by simp
  from th have "map (Some \<circ> fst) (new_calls ?s (snd (snd ?r))) =
       map Some [''run_tests'', ''check_code_coverage'', ''lint_code'',
        ''check_dependencies'', ''generate_changelog'']"
    by simp
  then have c2: "map fst (new_calls ?s (snd (snd ?r))) =
     [''run_tests'', ''check_code_coverage'', ''lint_code'', ''check_dependencies'',
      ''generate_changelog'']"
    unfolding map_map [symmetric] by (rule map_injective) simp
  show ?thesis by (intro conjI h1 h2f c1 c2)
qed

text \<open>
  C3. Running a name that is not in the registry fails with the \<open>ValueError\<close> whose
  message names the unknown workflow, and the tool callback is not invoked: the state,
  and with it the log of invocations and the world, is returned as it was.
\<close>

theorem unknown_workflow_fails_before_any_call:
  assumes "map_of (workflows s) name = None"
  shows "execute_workflow ex name ctx s =
           (Inl (ValueError (''Unknown workflow: '' @ name)), ctx, s) \<and>
         new_calls s (snd (snd (execute_workflow ex name ctx s))) = []"
  using assms by (simp add: execute_workflow_def new_calls_def)

theorem unknown_workflow_fails_before_any_call_witness:
  "map_of (workflows (init_state (0::nat))) ''nightly_build'' = None \<and>
   execute_workflow counting_tool ''nightly_build'' [(''query'', VStr ''rust'')] (init_state 0) =
     (Inl (ValueError ''Unknown workflow: nightly_build''), [(''query'', VStr ''rust'')],
      init_state 0) \<and>
   new_calls (init_state 0)
     (snd (snd (execute_workflow counting_tool ''nightly_build'' [(''query'', VStr ''rust'')]
        (init_state 0)))) = []"
proof -
  have h: "map_of (workflows (init_state (0::nat))) ''nightly_build'' = None"
    by (simp add: init_state_def init_workflows_def)
  note th = unknown_workflow_fails_before_any_call
    [OF h, of counting_tool "[(''query'', VStr ''rust'')]"]
  from th have c1: "execute_workflow counting_tool ''nightly_build''
      [(''query'', VStr ''rust'')] (init_state 0) =
     (Inl (ValueError ''Unknown workflow: nightly_build''), [(''query'', VStr ''rust'')],
      init_state 0)"
    by simp
  from th have c2: "new_calls (init_state 0)
     (snd (snd (execute_workflow counting_tool ''nightly_build'' [(''query'', VStr ''rust'')]
        (init_state 0)))) = []"
    by (rule conjunct2)
  show ?thesis by (intro conjI h c1 c2)
qed

text \<open>
  C4. When the invocation for step \<open>k + 1\<close> (the entry at index \<open>k\<close> of the run's
  log) raises \<open>e\<close>, the run fails with exactly \<open>e\<close>: no result set is returned, that
  invocation is the last one, and the log holds the invocations of the first \<open>k + 1\<close>
  steps only, so no later step reaches the callback.
\<close>

theorem callback_failure_aborts_run:
  assumes "map_of (workflows s) name = Some wflow"
      and "execute_workflow ex name ctx s = (out, ctx', s')"
      and "k < length (new_calls s s')"
      and "snd (snd (new_calls s s' ! k)) = Inl e"
  shows "out = Inl e \<and>
         calls s' = calls s @ new_calls s s' \<and>
         length (new_calls s s') = Suc k \<and>
         Suc k \<le> length wflow \<and>
         map (Some \<circ> fst) (new_calls s s') = take (Suc k) (map tool wflow)"
proof -
  from execute_workflow_trace [OF assms(1,2)]
  have log: "calls s' = calls s @ new_calls s s'"
    and tr: "trace_ok wflow [] (new_calls s s') out" by simp_all
  from tr assms(3,4) have last: "Suc k = length (new_calls s s')" and out: "out = Inl e"
    unfolding trace_ok_def by blast+
  from tr have len: "length (new_calls s s') \<le> length wflow"
    and tools: "map (Some \<circ> fst) (new_calls s s') = take (length (new_calls s s')) (map tool wflow)"
    unfolding trace_ok_def by blast+
  from last len have "Suc k \<le> length wflow" by simp
  moreover from tools last
  have "map (Some \<circ> fst) (new_calls s s') = take (Suc k) (map tool wflow)" by simp
  ultimately show ?thesis using out log last by simp
qed

theorem callback_failure_aborts_run_witness:
  "map_of (workflows (init_state (0::nat))) ''morning_briefing'' =
     Some [\<lparr>tool = Some ''get_calendar_events'', params = Some [(''days'', VInt 1)]\<rparr>,
           \<lparr>tool = Some ''check_github_notifications'', params = Some []\<rparr>,
           \<lparr>tool = Some ''get_weather'', params = Some []\<rparr>,
           \<lparr>tool = Some ''check_ci_status'',
             params = Some [(''repos'', VList [VStr ''main-project''])]\<rparr>] \<and>
   new_calls (init_state 0)
     (snd (snd (execute_workflow weather_down ''morning_briefing'' [] (init_state 0)))) ! 2 =
     (''get_weather'', [], Inl (ToolFailure ''weather API unreachable'')) \<and>
   fst (execute_workflow weather_down ''morning_briefing'' [] (init_state 0)) =
     Inl (ToolFailure ''weather API unreachable'') \<and>
   length (new_calls (init_state 0)
     (snd (snd (execute_workflow weather_down ''morning_briefing'' [] (init_state 0))))) = 3"
proof -
  let ?s = "init_state (0::nat)"
  let ?r = "execute_workflow weather_down ''morning_briefing'' [] ?s"
  have h1: "map_of (workflows ?s) ''morning_briefing'' =
     Some [\<lparr>tool = Some ''get_calendar_events'', params = Some [(''days'', VInt 1)]\<rparr>,
           \<lparr>tool = Some ''check_github_notifications'', params = Some []\<rparr>,
           \<lparr>tool = Some ''get_weather'', params = Some []\<rparr>,
           \<lparr>tool = Some ''check_ci_status'',
             params = Some [(''repos'', VList [VStr ''main-project''])]\<rparr>]"
    by (simp add: init_state_def init_workflows_def)
  have h2: "?r = (fst ?r, fst (snd ?r), snd (snd ?r))" by simp
  have h3: "2 < length (new_calls ?s (snd (snd ?r)))" by (simp add: run_simps)
  have c: "new_calls ?s (snd (snd ?r)) ! 2 =
     (''get_weather'', [], Inl (ToolFailure ''weather API unreachable''))"
    by (simp add: run_simps)
  then have h4: "snd (snd (new_calls ?s (snd (snd ?r)) ! 2)) =
     Inl (ToolFailure ''weather API unreachable'')" by simp
  note th = callback_failure_aborts_run [OF h1 h2 h3 h4]
  from th have c1: "fst ?r = Inl (ToolFailure ''weather API unreachable'')" by simp
  from th have c2: "length (new_calls ?s (snd (snd ?r))) = 3" by simp
  show ?thesis by (intro conjI h1 c c1 c2)
qed

text \<open>
  C9. Every run, successful or failed, hands back the caller's context as it received it
  and leaves the workflow registry of the state as it was.
\<close>

theorem run_leaves_context_and_registry:
  "fst (snd (execute_workflow ex name ctx s)) = ctx \<and>
   workflows (snd (snd (execute_workflow ex name ctx s))) = workflows s"
proof (cases "map_of (workflows s) name")
  case None
  then show ?thesis by (simp add: execute_workflow_def)
next
  case (Some wflow)
  obtain out ctx' s' where r: "run_steps ex ctx wflow [] s = (out, ctx', s')"
    by (cases "run_steps ex ctx wflow [] s")
  from run_steps_trace [OF r] have "ctx' = ctx" "workflows s' = workflows s" by simp_all
  with Some r show ?thesis by (simp add: execute_workflow_def)
qed

text \<open>
  C6. When two steps of a workflow invoke the same tool name (step \<open>j\<close> being the
  last step that does), the result set returned by a successful run holds exactly one
  entry under that name, and its value is the one the later invocation returned.
\<close>

theorem repeated_tool_last_write_wins:
  assumes "map_of (workflows s) name = Some wflow"
      and "execute_workflow ex name ctx s = (Inr res, ctx', s')"
      and "i < j" and "j < length wflow"
      and "tool (wflow ! i) = Some A" and "tool (wflow ! j) = Some A"
      and "\<forall>k. j < k \<and> k < length wflow \<longrightarrow> tool (wflow ! k) \<noteq> Some A"
  shows "\<exists>ps v. new_calls s s' ! j = (A, ps, Inr v) \<and>
                map_of res A = Some v \<and>
                filter (\<lambda>p. fst p = A) res = [(A, v)]"
proof -
  let ?new = "new_calls s s'"
  from execute_workflow_trace [OF assms(1,2)]
  have tr: "trace_ok wflow [] ?new (Inr res)" by simp
  then have len: "length ?new = length wflow"
    and acc: "res = accumulated [] ?new"
    and tools: "map (Some \<circ> fst) ?new = take (length ?new) (map tool wflow)"
    and fail: "\<And>n e. n < length ?new \<Longrightarrow> snd (snd (?new ! n)) \<noteq> Inl e"
    unfolding trace_ok_def by blast+
  from tools len have tools': "map (Some \<circ> fst) ?new = map tool wflow" by simp
  have name_at: "Some (fst (?new ! n)) = tool (wflow ! n)" if "n < length wflow" for n
  proof -
    from that len have "map (Some \<circ> fst) ?new ! n = Some (fst (?new ! n))" by simp
    moreover from that have "map tool wflow ! n = tool (wflow ! n)" by simp
    ultimately show ?thesis using tools' by simp
  qed
  obtain t ps r where c: "?new ! j = (t, ps, r)" by (cases "?new ! j")
  from name_at [OF assms(4)] c assms(6) have t: "t = A" by simp
  from fail [of j] assms(4) len c obtain v where r: "r = Inr v" by (cases r) auto
  have later: "fst (?new ! k) \<noteq> A" if "j < k" "k < length ?new" for k
  proof
    assume "fst (?new ! k) = A"
    with name_at [of k] that len have "tool (wflow ! k) = Some A" by simp
    with assms(7) that len show False by simp
  qed
  from assms(4) len have j: "j < length ?new" by simp
  from c t r have cj: "?new ! j = (A, ps, Inr v)" by simp
  have "map_of (accumulated [] ?new) A = Some v"
    using j cj later by (rule accumulated_last)
  with acc have m: "map_of res A = Some v" by simp
  have "distinct (map fst res)" unfolding acc by (rule distinct_accumulated) simp
  from single_entry [OF this m] cj m show ?thesis by blast
qed

theorem repeated_tool_last_write_wins_witness:
  "map_of (workflows lint_twice_state) ''lint_twice'' = Some lint_twice \<and>
   tool (lint_twice ! 0) = Some ''lint_code'' \<and> tool (lint_twice ! 2) = Some ''lint_code'' \<and>
   map (snd \<circ> snd) (new_calls lint_twice_state
      (snd (snd (execute_workflow counting_tool ''lint_twice'' [] lint_twice_state)))) =
     [Inr (VInt 0), Inr (VInt 1), Inr (VInt 2)] \<and>
   fst (execute_workflow counting_tool ''lint_twice'' [] lint_twice_state) =
     Inr [(''lint_code'', VInt 2), (''run_tests'', VInt 1)] \<and>
   filter (\<lambda>p. fst p = ''lint_code'') [(''lint_code'', VInt 2), (''run_tests'', VInt 1)] =
     [(''lint_code'', VInt 2)]"
proof -
  let ?s = lint_twice_state
  let ?r = "execute_workflow counting_tool ''lint_twice'' [] ?s"
  let ?res = "[(''lint_code'', VInt 2), (''run_tests'', VInt 1)]"
  have h1: "map_of (workflows ?s) ''lint_twice'' = Some lint_twice"
    by (simp add: lint_twice_state_def)
  have h2f: "fst ?r = Inr ?res"
    by (simp add: run_simps lint_twice_state_def lint_twice_def)
  then have h2: "?r = (Inr ?res, fst (snd ?r), snd (snd ?r))" by (simp add: prod_eq_iff)
  have h3: "(0::nat) < 2" by simp
  have h4: "2 < length lint_twice" by (simp add: lint_twice_def)
  have h5: "tool (lint_twice ! 0) = Some ''lint_code''" by (simp add: lint_twice_def)
  have h6: "tool (lint_twice ! 2) = Some ''lint_code''" by (simp add: lint_twice_def)
  have h7: "\<forall>k. 2 < k \<and> k < length lint_twice \<longrightarrow> tool (lint_twice ! k) \<noteq> Some ''lint_code''"
    by (simp add: lint_twice_def)
  have c: "map (snd \<circ> snd) (new_calls ?s (snd (snd ?r))) =
     [Inr (VInt 0), Inr (VInt 1), Inr (VInt 2)]"
    by (simp add: run_simps lint_twice_state_def lint_twice_def)
  then have third: "snd (snd (new_calls ?s (snd (snd ?r)) ! 2)) = Inr (VInt 2)"
    by (simp add: map_eq_Cons_conv) auto
  from repeated_tool_last_write_wins [OF h1 h2 h3 h4 h5 h6 h7]
  obtain ps v where v: "new_calls ?s (snd (snd ?r)) ! 2 = (''lint_code'', ps, Inr v)"
    and single: "filter (\<lambda>p. fst p = ''lint_code'') ?res = [(''lint_code'', v)]" by blast
  from v third have "v = VInt 2" by simp
  with single have c2: "filter (\<lambda>p. fst p = ''lint_code'') ?res = [(''lint_code'', VInt 2)]"
    by (simp only:)
  show ?thesis by (intro conjI h1 h5 h6 c h2f c2)
qed

text \<open>
  C8. Creating a custom workflow never fails and checks nothing about the steps: the
  step list is stored under the name as given, in place of whatever was registered
  there, the other workflows stay, and a later run of the name is the run of the new
  step list.
\<close>

theorem create_custom_workflow_replaces:
  assumes "handle_call_tool ex (CreateCustomWorkflow name steps) s = (out, s')"
  shows "out = Inr (WorkflowCreated name) \<and>
         map_of (workflows s') name = Some steps \<and>
         (\<forall>n. n \<noteq> name \<longrightarrow> map_of (workflows s') n = map_of (workflows s) n) \<and>
         world s' = world s \<and> calls s' = calls s \<and>
         execute_workflow ex' name ctx s' = run_steps ex' ctx steps [] s'"
proof -
  from assms have out: "out = Inr (WorkflowCreated name)"
    and s': "s' = s\<lparr>workflows := setitem (workflows s) name steps\<rparr>" by simp_all
  from s' have m: "map_of (workflows s') = (map_of (workflows s))(name \<mapsto> steps)"
    by (simp add: map_of_setitem)
  then have "execute_workflow ex' name ctx s' = run_steps ex' ctx steps [] s'"
    by (simp add: execute_workflow_def)
  with out m s' show ?thesis by simp
qed

theorem create_custom_workflow_replaces_witness:
  "fst (handle_call_tool counting_tool
      (CreateCustomWorkflow ''morning_briefing'' [\<lparr>tool = Some ''get_weather'', params = Some []\<rparr>])
      (init_state 0)) = Inr (WorkflowCreated ''morning_briefing'') \<and>
   map_of (workflows (snd (handle_call_tool counting_tool
      (CreateCustomWorkflow ''morning_briefing'' [\<lparr>tool = Some ''get_weather'', params = Some []\<rparr>])
      (init_state 0)))) ''morning_briefing'' = Some [\<lparr>tool = Some ''get_weather'', params = Some []\<rparr>] \<and>
   fst (execute_workflow counting_tool ''morning_briefing'' []
     (snd (handle_call_tool counting_tool
      (CreateCustomWorkflow ''morning_briefing'' [\<lparr>tool = Some ''get_weather'', params = Some []\<rparr>])
      (init_state 0)))) = Inr [(''get_weather'', VInt 0)] \<and>
   calls (snd (snd (execute_workflow counting_tool ''morning_briefing'' []
     (snd (handle_call_tool counting_tool
      (CreateCustomWorkflow ''morning_briefing'' [\<lparr>tool = Some ''get_weather'', params = Some []\<rparr>])
      (init_state 0)))))) = [(''get_weather'', [], Inr (VInt 0))]"
proof -
  let ?steps = "[\<lparr>tool = Some ''get_weather'', params = Some []\<rparr>]"
  let ?h = "handle_call_tool counting_tool (CreateCustomWorkflow ''morning_briefing'' ?steps)
      (init_state 0)"
  have h: "?h = (fst ?h, snd ?h)" by simp
  note th = create_custom_workflow_replaces [OF h, of counting_tool "[]"]
  from th have c1: "fst ?h = Inr (WorkflowCreated ''morning_briefing'')" by (rule conjunct1)
  from th have c2: "map_of (workflows (snd ?h)) ''morning_briefing'' = Some ?steps" by blast
  from th have run: "execute_workflow counting_tool ''morning_briefing'' [] (snd ?h) =
      run_steps counting_tool [] ?steps [] (snd ?h)" by blast
  have c3: "fst (execute_workflow counting_tool ''morning_briefing'' [] (snd ?h)) =
      Inr [(''get_weather'', VInt 0)]"
    unfolding run by (simp add: run_simps)
  have c4: "calls (snd (snd (execute_workflow counting_tool ''morning_briefing'' [] (snd ?h)))) =
      [(''get_weather'', [], Inr (VInt 0))]"
    unfolding run by (simp add: run_simps)
  show ?thesis by (intro conjI c1 c2 c3 c4)
qed

subsection \<open>Parameter resolution in a step\<close>

lemma resolved_placeholder:
  "startswith p ''{'' \<Longrightarrow> endswith p ''}'' \<Longrightarrow>
   resolved ctx results (VStr p) =
     (case map_of ctx (slice_inner p) of
        Some x \<Rightarrow> Some x
      | None \<Rightarrow> map_of results (slice_inner p))"
  by (simp add: resolved_def)

lemma resolved_literal:
  "\<forall>p. x = VStr p \<longrightarrow> \<not> (startswith p ''{'' \<and> endswith p ''}'') \<Longrightarrow>
   resolved ctx results x = Some x"
  by (cases x) (auto simp: resolved_def)

lemmas ex_simps = summarize_step_def summarize_context_def summarize_results_def

text \<open>
  C2. For a parameter whose value is a placeholder string, the identifier between the
  braces is looked up in the context first and in the current result set only when the
  context has no such key. The value found is what the callback receives under the
  parameter's name, as it is: it is stored without another look, also when it is itself
  a string in braces. The dict so built is the one the callback is applied to, once, in
  the world of the state: what it returns is the logged result, its world is the world
  of the state after the step, and the step's outcome is made from its result. (When neither holds the identifier the lookup yields nothing, see
  C5.) The keys of a step's parameter dict are distinct, as the keys of any dict are.
\<close>

theorem placeholder_context_before_results:
  assumes "params stp = Some items" and "tool stp = Some t"
      and "distinct (map fst items)"
      and "(key, VStr p) \<in> set items"
      and "startswith p ''{''" and "endswith p ''}''"
      and "run_step ex ctx stp results s = (out, s')"
  shows "\<exists>passed r. new_calls s s' = [(t, passed, r)] \<and>
           ex t passed (world s) = (r, world s') \<and>
           out = (case r of Inl e \<Rightarrow> Inl e | Inr v \<Rightarrow> Inr (setitem results t v)) \<and>
           map_of passed key =
             (case map_of ctx (slice_inner p) of
                Some x \<Rightarrow> Some x
              | None \<Rightarrow> map_of results (slice_inner p))"
proof -
  from run_step_delivers [OF assms(1,2,7)] obtain r where
    "new_calls s s' = [(t, resolve_params ctx results items, r)]"
    "ex t (resolve_params ctx results items) (world s) = (r, world s')"
    "out = (case r of Inl e \<Rightarrow> Inl e | Inr v \<Rightarrow> Inr (setitem results t v))" by blast
  moreover have "map_of (resolve_params ctx results items) key =
      (case map_of ctx (slice_inner p) of
         Some x \<Rightarrow> Some x
       | None \<Rightarrow> map_of results (slice_inner p))"
    using map_of_resolve_params [OF assms(3,4)] resolved_placeholder [OF assms(5,6)] by simp
  ultimately show ?thesis by blast
qed

theorem placeholder_context_before_results_witness:
  "(''topic'', VStr ''{query}'') \<in> set (the (params summarize_step)) \<and>
   (''papers'', VStr ''{search_arxiv}'') \<in> set (the (params summarize_step)) \<and>
   map_of summarize_context ''query'' = Some (VStr ''{topic}'') \<and>
   map_of summarize_results ''query'' = Some (VStr ''shadowed'') \<and>
   map_of summarize_context ''search_arxiv'' = None \<and>
   new_calls (init_state 0)
     (snd (run_step echo_tool summarize_context summarize_step summarize_results
        (init_state 0))) =
     [(''summarize_papers'',
       [(''topic'', VStr ''{topic}''), (''papers'', VList [VStr ''paper-1'']),
        (''limit'', VInt 5), (''note'', VStr ''{draft'')],
       Inr (VList [VStr ''{topic}'', VList [VStr ''paper-1''], VInt 5, VStr ''{draft'']))] \<and>
   map_of [(''topic'', VStr ''{topic}''), (''papers'', VList [VStr ''paper-1'']),
           (''limit'', VInt 5), (''note'', VStr ''{draft'')] ''topic'' = Some (VStr ''{topic}'') \<and>
   map_of [(''topic'', VStr ''{topic}''), (''papers'', VList [VStr ''paper-1'']),
           (''limit'', VInt 5), (''note'', VStr ''{draft'')] ''papers'' =
     Some (VList [VStr ''paper-1'']) \<and>
   world (snd (run_step echo_tool summarize_context summarize_step summarize_results
        (init_state 0))) = 1 \<and>
   fst (run_step echo_tool summarize_context summarize_step summarize_results (init_state 0)) =
     Inr [(''query'', VStr ''shadowed''), (''search_arxiv'', VList [VStr ''paper-1'']),
          (''summarize_papers'',
           VList [VStr ''{topic}'', VList [VStr ''paper-1''], VInt 5, VStr ''{draft''])]"
proof -
  let ?items = "[(''topic'', VStr ''{query}''), (''papers'', VStr ''{search_arxiv}''),
                 (''style'', VStr ''{style}''), (''limit'', VInt 5),
                 (''note'', VStr ''{draft''), (''blank'', VStr ''{}'')]"
  let ?passed = "[(''topic'', VStr ''{topic}''), (''papers'', VList [VStr ''paper-1'']),
       (''limit'', VInt 5), (''note'', VStr ''{draft'')]"
  let ?ret = "VList [VStr ''{topic}'', VList [VStr ''paper-1''], VInt 5, VStr ''{draft'']"
  let ?r = "run_step echo_tool summarize_context summarize_step summarize_results (init_state 0)"
  have h1: "params summarize_step = Some ?items" by (simp add: ex_simps)
  have h2: "tool summarize_step = Some ''summarize_papers''" by (simp add: ex_simps)
  have h3: "distinct (map fst ?items)" by simp
  have h4: "(''topic'', VStr ''{query}'') \<in> set ?items" by simp
  have h4': "(''papers'', VStr ''{search_arxiv}'') \<in> set ?items" by simp
  have h5: "startswith ''{query}'' ''{''" "startswith ''{search_arxiv}'' ''{''"
    by (simp_all add: startswith_def)
  have h6: "endswith ''{query}'' ''}''" "endswith ''{search_arxiv}'' ''}''"
    by (simp_all add: endswith_def)
  have h7: "?r = (fst ?r, snd ?r)" by simp
  have c: "map (fst \<circ> snd) (new_calls (init_state 0) (snd ?r)) = [?passed]"
    by (simp add: run_simps ex_simps)
  have m1: "map_of summarize_context ''query'' = Some (VStr ''{topic}'')"
    and m2: "map_of summarize_results ''query'' = Some (VStr ''shadowed'')"
    and m3: "map_of summarize_context ''search_arxiv'' = None"
    and m4: "map_of summarize_results ''search_arxiv'' = Some (VList [VStr ''paper-1''])"
    by (simp_all add: ex_simps)
  have s1: "slice_inner ''{query}'' = ''query''" "slice_inner ''{search_arxiv}'' = ''search_arxiv''"
    by (simp_all add: slice_inner_def)
  from placeholder_context_before_results [OF h1 h2 h3 h4 h5(1) h6(1) h7]
  obtain passed r where n: "new_calls (init_state 0) (snd ?r) = [(''summarize_papers'', passed, r)]"
    and d: "echo_tool ''summarize_papers'' passed (world (init_state 0)) = (r, world (snd ?r))"
    and o: "fst ?r = (case r of Inl e \<Rightarrow> Inl e
                      | Inr v \<Rightarrow> Inr (setitem summarize_results ''summarize_papers'' v))"
    and m: "map_of passed ''topic'' =
      (case map_of summarize_context (slice_inner ''{query}'') of
         Some x \<Rightarrow> Some x
       | None \<Rightarrow> map_of summarize_results (slice_inner ''{query}''))"
    by blast
  from c n have p: "passed = ?passed" by simp
  from m have c1: "map_of ?passed ''topic'' = Some (VStr ''{topic}'')"
    unfolding p s1 m1 by simp
  from d have "(Inr ?ret, Suc 0) = (r, world (snd ?r))"
    unfolding p by (simp add: echo_tool_def init_state_def)
  then have r: "r = Inr ?ret" and w: "world (snd ?r) = 1" by simp_all
  from n have log: "new_calls (init_state 0) (snd ?r) = [(''summarize_papers'', ?passed, Inr ?ret)]"
    unfolding p r .
  from o have out: "fst ?r =
     Inr [(''query'', VStr ''shadowed''), (''search_arxiv'', VList [VStr ''paper-1'']),
          (''summarize_papers'', ?ret)]"
    unfolding r by (simp add: setitem_def ex_simps)
  from placeholder_context_before_results [OF h1 h2 h3 h4' h5(2) h6(2) h7]
  obtain passed' r' where "new_calls (init_state 0) (snd ?r) = [(''summarize_papers'', passed', r')]"
    and "map_of passed' ''papers'' = Some (VList [VStr ''paper-1''])"
    by (auto simp: s1 m3 m4)
  with c have c2: "map_of ?passed ''papers'' = Some (VList [VStr ''paper-1''])" by simp
  from h1 h4 have g1: "(''topic'', VStr ''{query}'') \<in> set (the (params summarize_step))"
    by simp
  from h1 h4' have g2: "(''papers'', VStr ''{search_arxiv}'') \<in> set (the (params summarize_step))"
    by simp
  show ?thesis by (intro conjI g1 g2 m1 m2 m3 log c1 c2 w out)
qed

text \<open>
  C5. For a placeholder whose identifier is in neither the context nor the current
  result set, the dict passed to the callback has no entry under the parameter's name,
  and nothing is raised for it: the callback is invoked, and the outcome of the step is
  the outcome of that invocation.
\<close>

theorem unresolved_placeholder_dropped:
  assumes "params stp = Some items" and "tool stp = Some t"
      and "distinct (map fst items)"
      and "(key, VStr p) \<in> set items"
      and "startswith p ''{''" and "endswith p ''}''"
      and "map_of ctx (slice_inner p) = None" and "map_of results (slice_inner p) = None"
      and "run_step ex ctx stp results s = (out, s')"
  shows "\<exists>passed r. new_calls s s' = [(t, passed, r)] \<and>
           key \<notin> fst ` set passed \<and>
           out = (case r of Inl e \<Rightarrow> Inl e | Inr v \<Rightarrow> Inr (setitem results t v))"
proof -
  from run_step_passes [OF assms(1,2,9)] obtain r where
    r: "new_calls s s' = [(t, resolve_params ctx results items, r)]"
       "out = (case r of Inl e \<Rightarrow> Inl e | Inr v \<Rightarrow> Inr (setitem results t v))" by blast
  have "map_of (resolve_params ctx results items) key = None"
    using map_of_resolve_params [OF assms(3,4)] resolved_placeholder [OF assms(5,6)] assms(7,8)
    by simp
  then have "key \<notin> fst ` set (resolve_params ctx results items)"
    by (simp add: map_of_None_keys)
  with r show ?thesis by blast
qed

theorem unresolved_placeholder_dropped_witness:
  "(''style'', VStr ''{style}'') \<in> set (the (params summarize_step)) \<and>
   map_of summarize_context ''style'' = None \<and>
   map_of summarize_results ''style'' = None \<and>
   map (fst \<circ> snd) (new_calls (init_state 0)
     (snd (run_step echo_tool summarize_context summarize_step summarize_results
        (init_state 0)))) =
     [[(''topic'', VStr ''{topic}''), (''papers'', VList [VStr ''paper-1'']),
       (''limit'', VInt 5), (''note'', VStr ''{draft'')]] \<and>
   ''style'' \<notin> fst ` set [(''topic'', VStr ''{topic}''), (''papers'', VList [VStr ''paper-1'']),
       (''limit'', VInt 5), (''note'', VStr ''{draft'')] \<and>
   fst (run_step echo_tool summarize_context summarize_step summarize_results (init_state 0)) =
     Inr [(''query'', VStr ''shadowed''), (''search_arxiv'', VList [VStr ''paper-1'']),
          (''summarize_papers'',
           VList [VStr ''{topic}'', VList [VStr ''paper-1''], VInt 5, VStr ''{draft''])]"
proof -
  let ?items = "[(''topic'', VStr ''{query}''), (''papers'', VStr ''{search_arxiv}''),
                 (''style'', VStr ''{style}''), (''limit'', VInt 5),
                 (''note'', VStr ''{draft''), (''blank'', VStr ''{}'')]"
  let ?passed = "[(''topic'', VStr ''{topic}''), (''papers'', VList [VStr ''paper-1'']),
       (''limit'', VInt 5), (''note'', VStr ''{draft'')]"
  let ?r = "run_step echo_tool summarize_context summarize_step summarize_results (init_state 0)"
  have h1: "params summarize_step = Some ?items" by (simp add: ex_simps)
  have h2: "tool summarize_step = Some ''summarize_papers''" by (simp add: ex_simps)
  have h3: "distinct (map fst ?items)" by simp
  have h4: "(''style'', VStr ''{style}'') \<in> set ?items" by simp
  have h5: "startswith ''{style}'' ''{''" by (simp add: startswith_def)
  have h6: "endswith ''{style}'' ''}''" by (simp add: endswith_def)
  have s1: "slice_inner ''{style}'' = ''style''" by (simp add: slice_inner_def)
  have m1: "map_of summarize_context ''style'' = None"
    and m2: "map_of summarize_results ''style'' = None"
    by (simp_all add: ex_simps)
  from m1 s1 have h7: "map_of summarize_context (slice_inner ''{style}'') = None" by simp
  from m2 s1 have h8: "map_of summarize_results (slice_inner ''{style}'') = None" by simp
  have h9: "?r = (fst ?r, snd ?r)" by simp
  have c: "map (fst \<circ> snd) (new_calls (init_state 0) (snd ?r)) = [?passed]"
    by (simp add: run_simps ex_simps)
  have o: "fst ?r =
     Inr [(''query'', VStr ''shadowed''), (''search_arxiv'', VList [VStr ''paper-1'']),
          (''summarize_papers'',
           VList [VStr ''{topic}'', VList [VStr ''paper-1''], VInt 5, VStr ''{draft''])]"
    by (simp add: run_simps ex_simps)
  from unresolved_placeholder_dropped [OF h1 h2 h3 h4 h5 h6 h7 h8 h9]
  obtain passed r where "new_calls (init_state 0) (snd ?r) = [(''summarize_papers'', passed, r)]"
    and "''style'' \<notin> fst ` set passed"
    by blast
  with c have c1: "''style'' \<notin> fst ` set ?passed" by simp
  from h1 h4 have g1: "(''style'', VStr ''{style}'') \<in> set (the (params summarize_step))"
    by simp
  show ?thesis by (intro conjI g1 m1 m2 c c1 o)
qed

text \<open>
  C7. A parameter value that is not a string, or is a string that does not both start
  with an opening brace and end with a closing one, reaches the callback unchanged under
  the parameter's name: the dict that binds the name to that very value is the one the
  callback is applied to, once, in the world of the state, and the step's outcome is made
  from what the callback returns.
\<close>

theorem literal_passed_unchanged:
  assumes "params stp = Some items" and "tool stp = Some t"
      and "distinct (map fst items)"
      and "(key, x) \<in> set items"
      and "\<forall>p. x = VStr p \<longrightarrow> \<not> (startswith p ''{'' \<and> endswith p ''}'')"
      and "run_step ex ctx stp results s = (out, s')"
  shows "\<exists>passed r. new_calls s s' = [(t, passed, r)] \<and>
           ex t passed (world s) = (r, world s') \<and>
           out = (case r of Inl e \<Rightarrow> Inl e | Inr v \<Rightarrow> Inr (setitem results t v)) \<and>
           map_of passed key = Some x"
proof -
  from run_step_delivers [OF assms(1,2,6)] obtain r where
    "new_calls s s' = [(t, resolve_params ctx results items, r)]"
    "ex t (resolve_params ctx results items) (world s) = (r, world s')"
    "out = (case r of Inl e \<Rightarrow> Inl e | Inr v \<Rightarrow> Inr (setitem results t v))" by blast
  moreover have "map_of (resolve_params ctx results items) key = Some x"
    using map_of_resolve_params [OF assms(3,4)] resolved_literal [OF assms(5)] by simp
  ultimately show ?thesis by blast
qed

theorem literal_passed_unchanged_witness:
  "(''limit'', VInt 5) \<in> set (the (params summarize_step)) \<and>
   (''note'', VStr ''{draft'') \<in> set (the (params summarize_step)) \<and>
   \<not> endswith ''{draft'' ''}'' \<and>
   new_calls (init_state 0)
     (snd (run_step echo_tool summarize_context summarize_step summarize_results
        (init_state 0))) =
     [(''summarize_papers'',
       [(''topic'', VStr ''{topic}''), (''papers'', VList [VStr ''paper-1'']),
        (''limit'', VInt 5), (''note'', VStr ''{draft'')],
       Inr (VList [VStr ''{topic}'', VList [VStr ''paper-1''], VInt 5, VStr ''{draft'']))] \<and>
   map_of [(''topic'', VStr ''{topic}''), (''papers'', VList [VStr ''paper-1'']),
           (''limit'', VInt 5), (''note'', VStr ''{draft'')] ''limit'' = Some (VInt 5) \<and>
   map_of [(''topic'', VStr ''{topic}''), (''papers'', VList [VStr ''paper-1'']),
           (''limit'', VInt 5), (''note'', VStr ''{draft'')] ''note'' = Some (VStr ''{draft'') \<and>
   world (snd (run_step echo_tool summarize_context summarize_step summarize_results
        (init_state 0))) = 1 \<and>
   fst (run_step echo_tool summarize_context summarize_step summarize_results (init_state 0)) =
     Inr [(''query'', VStr ''shadowed''), (''search_arxiv'', VList [VStr ''paper-1'']),
          (''summarize_papers'',
           VList [VStr ''{topic}'', VList [VStr ''paper-1''], VInt 5, VStr ''{draft''])]"
proof -
  let ?items = "[(''topic'', VStr ''{query}''), (''papers'', VStr ''{search_arxiv}''),
                 (''style'', VStr ''{style}''), (''limit'', VInt 5),
                 (''note'', VStr ''{draft''), (''blank'', VStr ''{}'')]"
  let ?passed = "[(''topic'', VStr ''{topic}''), (''papers'', VList [VStr ''paper-1'']),
       (''limit'', VInt 5), (''note'', VStr ''{draft'')]"
  let ?ret = "VList [VStr ''{topic}'', VList [VStr ''paper-1''], VInt 5, VStr ''{draft'']"
  let ?r = "run_step echo_tool summarize_context summarize_step summarize_results (init_state 0)"
  have h1: "params summarize_step = Some ?items" by (simp add: ex_simps)
  have h2: "tool summarize_step = Some ''summarize_papers''" by (simp add: ex_simps)
  have h3: "distinct (map fst ?items)" by simp
  have h4: "(''limit'', VInt 5) \<in> set ?items" by simp
  have h4': "(''note'', VStr ''{draft'') \<in> set ?items" by simp
  have h5: "\<forall>p. VInt 5 = VStr p \<longrightarrow> \<not> (startswith p ''{'' \<and> endswith p ''}'')" by simp
  have e: "\<not> endswith ''{draft'' ''}''" by (simp add: endswith_def)
  then have h5': "\<forall>p. VStr ''{draft'' = VStr p \<longrightarrow> \<not> (startswith p ''{'' \<and> endswith p ''}'')"
    by simp
  have h6: "?r = (fst ?r, snd ?r)" by simp
  have c: "map (fst \<circ> snd) (new_calls (init_state 0) (snd ?r)) = [?passed]"
    by (simp add: run_simps ex_simps)
  from literal_passed_unchanged [OF h1 h2 h3 h4 h5 h6]
  obtain passed r where n: "new_calls (init_state 0) (snd ?r) = [(''summarize_papers'', passed, r)]"
    and d: "echo_tool ''summarize_papers'' passed (world (init_state 0)) = (r, world (snd ?r))"
    and o: "fst ?r = (case r of Inl e \<Rightarrow> Inl e
                      | Inr v \<Rightarrow> Inr (setitem summarize_results ''summarize_papers'' v))"
    and m: "map_of passed ''limit'' = Some (VInt 5)"
    by blast
  from c n have p: "passed = ?passed" by simp
  from m have c1: "map_of ?passed ''limit'' = Some (VInt 5)" unfolding p .
  from d have "(Inr ?ret, Suc 0) = (r, world (snd ?r))"
    unfolding p by (simp add: echo_tool_def init_state_def)
  then have r: "r = Inr ?ret" and w: "world (snd ?r) = 1" by simp_all
  from n have log: "new_calls (init_state 0) (snd ?r) = [(''summarize_papers'', ?passed, Inr ?ret)]"
    unfolding p r .
  from o have out: "fst ?r =
     Inr [(''query'', VStr ''shadowed''), (''search_arxiv'', VList [VStr ''paper-1'']),
          (''summarize_papers'', ?ret)]"
    unfolding r by (simp add: setitem_def ex_simps)
  from literal_passed_unchanged [OF h1 h2 h3 h4' h5' h6]
  obtain passed' r' where "new_calls (init_state 0) (snd ?r) = [(''summarize_papers'', passed', r')]"
    and "map_of passed' ''note'' = Some (VStr ''{draft'')"
    by blast
  with c have c2: "map_of ?passed ''note'' = Some (VStr ''{draft'')" by simp
  from h1 h4 have g1: "(''limit'', VInt 5) \<in> set (the (params summarize_step))" by simp
  from h1 h4' have g2: "(''note'', VStr ''{draft'') \<in> set (the (params summarize_step))" by simp
  show ?thesis by (intro conjI g1 g2 e log c1 c2 w out)
qed

text \<open>
  C10. The two-character string of an opening and a closing brace is a placeholder with
  the empty identifier: the callback receives the value bound to the empty string in the
  context, else in the result set, and when neither binds it the parameter is left out.
  The literal branch is never taken for it.
\<close>

theorem empty_braces_is_placeholder:
  assumes "params stp = Some items" and "tool stp = Some t"
      and "distinct (map fst items)"
      and "(key, VStr ''{}'') \<in> set items"
      and "run_step ex ctx stp results s = (out, s')"
  shows "\<exists>passed r. new_calls s s' = [(t, passed, r)] \<and>
           map_of passed key =
             (case map_of ctx '''' of Some x \<Rightarrow> Some x | None \<Rightarrow> map_of results '''') \<and>
           (key \<in> fst ` set passed) = (map_of ctx '''' \<noteq> None \<or> map_of results '''' \<noteq> None)"
proof -
  from run_step_passes [OF assms(1,2,5)] obtain r where
    r: "new_calls s s' = [(t, resolve_params ctx results items, r)]" by blast
  have "resolved ctx results (VStr ''{}'') =
      (case map_of ctx '''' of Some x \<Rightarrow> Some x | None \<Rightarrow> map_of results '''')"
    by (simp add: resolved_def startswith_def endswith_def slice_inner_def
        split: option.splits)
  with map_of_resolve_params [OF assms(3,4)]
  have m: "map_of (resolve_params ctx results items) key =
      (case map_of ctx '''' of Some x \<Rightarrow> Some x | None \<Rightarrow> map_of results '''')" by simp
  have "(key \<in> fst ` set (resolve_params ctx results items)) =
      (map_of (resolve_params ctx results items) key \<noteq> None)"
    by (simp add: map_of_None_keys)
  also have "\<dots> = (map_of ctx '''' \<noteq> None \<or> map_of results '''' \<noteq> None)"
    unfolding m by (simp split: option.splits)
  finally show ?thesis using r m by blast
qed

theorem empty_braces_is_placeholder_witness:
  "(''blank'', VStr ''{}'') \<in> set (the (params summarize_step)) \<and>
   map (fst \<circ> snd) (new_calls (init_state 0)
     (snd (run_step echo_tool [('''', VStr ''anonymous'')] summarize_step summarize_results
        (init_state 0)))) =
     [[(''topic'', VStr ''shadowed''), (''papers'', VList [VStr ''paper-1'']),
       (''limit'', VInt 5), (''note'', VStr ''{draft''), (''blank'', VStr ''anonymous'')]] \<and>
   map_of [(''topic'', VStr ''shadowed''), (''papers'', VList [VStr ''paper-1'']),
       (''limit'', VInt 5), (''note'', VStr ''{draft''), (''blank'', VStr ''anonymous'')]
     ''blank'' = Some (VStr ''anonymous'') \<and>
   map (fst \<circ> snd) (new_calls (init_state 0)
     (snd (run_step echo_tool summarize_context summarize_step summarize_results
        (init_state 0)))) =
     [[(''topic'', VStr ''{topic}''), (''papers'', VList [VStr ''paper-1'']),
       (''limit'', VInt 5), (''note'', VStr ''{draft'')]] \<and>
   ''blank'' \<notin> fst ` set [(''topic'', VStr ''{topic}''), (''papers'', VList [VStr ''paper-1'']),
       (''limit'', VInt 5), (''note'', VStr ''{draft'')]"
proof -
  let ?items = "[(''topic'', VStr ''{query}''), (''papers'', VStr ''{search_arxiv}''),
                 (''style'', VStr ''{style}''), (''limit'', VInt 5),
                 (''note'', VStr ''{draft''), (''blank'', VStr ''{}'')]"
  let ?bound = "[(''topic'', VStr ''shadowed''), (''papers'', VList [VStr ''paper-1'']),
       (''limit'', VInt 5), (''note'', VStr ''{draft''), (''blank'', VStr ''anonymous'')]"
  let ?dropped = "[(''topic'', VStr ''{topic}''), (''papers'', VList [VStr ''paper-1'']),
       (''limit'', VInt 5), (''note'', VStr ''{draft'')]"
  let ?r1 = "run_step echo_tool [('''', VStr ''anonymous'')] summarize_step summarize_results
      (init_state 0)"
  let ?r2 = "run_step echo_tool summarize_context summarize_step summarize_results (init_state 0)"
  have h1: "params summarize_step = Some ?items" by (simp add: ex_simps)
  have h2: "tool summarize_step = Some ''summarize_papers''" by (simp add: ex_simps)
  have h3: "distinct (map fst ?items)" by simp
  have h4: "(''blank'', VStr ''{}'') \<in> set ?items" by simp
  have h5: "?r1 = (fst ?r1, snd ?r1)" by simp
  have h5': "?r2 = (fst ?r2, snd ?r2)" by simp
  have c: "map (fst \<circ> snd) (new_calls (init_state 0) (snd ?r1)) = [?bound]"
    by (simp add: run_simps ex_simps)
  have c': "map (fst \<circ> snd) (new_calls (init_state 0) (snd ?r2)) = [?dropped]"
    by (simp add: run_simps ex_simps)
  from empty_braces_is_placeholder [OF h1 h2 h3 h4 h5]
  obtain passed r where "new_calls (init_state 0) (snd ?r1) = [(''summarize_papers'', passed, r)]"
    and "map_of passed ''blank'' = Some (VStr ''anonymous'')"
    by auto
  with c have c1: "map_of ?bound ''blank'' = Some (VStr ''anonymous'')" by simp
  from empty_braces_is_placeholder [OF h1 h2 h3 h4 h5']
  obtain passed r where "new_calls (init_state 0) (snd ?r2) = [(''summarize_papers'', passed, r)]"
    and "(''blank'' \<in> fst ` set passed) =
      (map_of summarize_context '''' \<noteq> None \<or> map_of summarize_results '''' \<noteq> None)"
    by blast
  with c' have c2: "''blank'' \<notin> fst ` set ?dropped" by (simp add: ex_simps)
  from h1 h4 have g1: "(''blank'', VStr ''{}'') \<in> set (the (params summarize_step))" by simp
  show ?thesis by (intro conjI g1 c c1 c' c2)
qed

end
